theory Spec2Isabelle
  imports Complex_Main "HOL-Library.AList"
begin

section \<open>Data model of \<^verbatim>\<open>gpio_monitor.py\<close>\<close>

text \<open>
  The module polls a list of GPIO pins from a daemon thread and hands the complete
  state of all pins to a callback after every pass. The embedding follows the source
  method by method. Exceptions are values of type \<open>error\<close>; a method that can raise
  returns \<open>error option\<close> (\<open>None\<close>: returned normally) next to the state it leaves
  behind.
\<close>

datatype error = RuntimeError | ValueError | CallbackError

text \<open>
  What \<^verbatim>\<open>GPIO.input\<close> may hand back: Python does not constrain it, so the model
  keeps integers and booleans apart and \<open>py_int\<close> is Python's \<^verbatim>\<open>int(value)\<close>
  on them (the identity on an \<^verbatim>\<open>int\<close>, 0/1 on a \<^verbatim>\<open>bool\<close>).
\<close>

datatype pyval = PyInt int | PyBool bool

fun py_int :: "pyval \<Rightarrow> int" where
  "py_int (PyInt i) = i"
| "py_int (PyBool b) = (if b then 1 else 0)"

text \<open>The dataclass \<^verbatim>\<open>GPIOState\<close> (the field \<^verbatim>\<open>value\<close> is written \<open>value'\<close>).\<close>

record GPIOState =
  pin :: int
  value' :: int
  label :: "string option"

text \<open>
  \<^verbatim>\<open>AllGPIOStates.pins\<close> is a \<^verbatim>\<open>Dict[int, Dict[str, Any]]\<close>. Both
  dictionaries are association lists in insertion order; storing under a key that is
  already there replaces the value in place, as a Python \<^verbatim>\<open>dict\<close> does
  (\<open>AList.update\<close>).
\<close>

datatype field = FInt int | FStr string | FNone

type_synonym pin_dict = "(string \<times> field) list"
type_synonym snapshot = "(int \<times> pin_dict) list"

definition state_dict :: "GPIOState \<Rightarrow> pin_dict" where
  "state_dict st =
     [(''pin'', FInt (pin st)),
      (''value'', FInt (value' st)),
      (''label'', (case label st of None \<Rightarrow> FNone | Some l \<Rightarrow> FStr l))]"

text \<open>\<^verbatim>\<open>AllGPIOStates.__init__\<close>: the dict comprehension over \<^verbatim>\<open>states\<close>.\<close>

definition AllGPIOStates_init :: "GPIOState list \<Rightarrow> snapshot" where
  "AllGPIOStates_init states =
     foldl (\<lambda>d st. AList.update (pin st) (state_dict st) d) [] states"

definition to_dict :: "snapshot \<Rightarrow> snapshot" where
  "to_dict pins_d = pins_d"

section \<open>The monitor object and its environment\<close>

text \<open>
  The callback \<^verbatim>\<open>_on_update\<close> is code of the monitor's owner. What an invocation
  does to the monitor is one of three things: it returns, it raises, or it calls
  \<^verbatim>\<open>stop\<close> on the monitor (letting through what \<^verbatim>\<open>stop\<close> raises) and then
  returns; the flag says whether a join on another thread would end in time. Calls of
  \<^verbatim>\<open>start\<close> and \<^verbatim>\<open>get_all_states\<close> from the callback change nothing while
  its own loop thread is alive and are left out. The callback is a function of the
  number of invocations before this one and of the snapshot it is given.
\<close>

datatype reaction = Returns | Raises error | CallsStop bool

text \<open>
  The fields of \<^verbatim>\<open>GPIOMonitor\<close>. \<open>thread\<close> is \<^verbatim>\<open>_thread\<close>: the index of a
  thread object in the process's table of threads; \<open>stop_event\<close> is the
  \<^verbatim>\<open>threading.Event\<close> \<^verbatim>\<open>_stop\<close>.
\<close>

record GPIOMonitor =
  pins :: "int list"
  label_map :: "int \<rightharpoonup> string"
  interval_s :: real
  on_update :: "nat \<Rightarrow> snapshot \<Rightarrow> reaction"
  thread :: "nat option"
  stop_event :: bool
  last_values :: "int \<rightharpoonup> int"

text \<open>
  Everything the methods do to the outside is recorded in order: calls into the
  hardware library, the thread spawned, the callback invoked, the sleep, the join, and
  an exception that ends a loop thread.
\<close>

datatype event =
    Setmode
  | Setup int
  | Input int
  | Cleanup
  | Spawn nat
  | Join real
  | Update snapshot
  | Sleep real
  | Uncaught error

text \<open>
  The world is the monitor together with the liveness of every thread object created so
  far, the number of calls made into the hardware library, and the trace.
\<close>

record world = GPIOMonitor +
  threads :: "bool list"
  calls :: nat
  trace :: "event list"

text \<open>
  The module-level \<^verbatim>\<open>GPIO\<close> is either \<^verbatim>\<open>None\<close> (the import failed) or the
  hardware library. The library is outside the repository: what each of its calls does
  is a parameter, and may depend on how many calls came before it.
\<close>

record gpio =
  gpio_setmode :: "nat \<Rightarrow> error option"
  gpio_setup :: "nat \<Rightarrow> int \<Rightarrow> error option"
  gpio_input :: "nat \<Rightarrow> int \<Rightarrow> error + pyval"
  gpio_cleanup :: "nat \<Rightarrow> error option"

definition hw_call :: "event \<Rightarrow> world \<Rightarrow> world" where
  "hw_call e w = w\<lparr>calls := Suc (calls w), trace := trace w @ [e]\<rparr>"

text \<open>\<^verbatim>\<open>GPIOMonitor.__init__\<close>.\<close>

definition init ::
  "int list \<Rightarrow> (int \<rightharpoonup> string) \<Rightarrow> real \<Rightarrow> (nat \<Rightarrow> snapshot \<Rightarrow> reaction) \<Rightarrow> world" where
  "init ps lm iv cb =
     \<lparr>pins = ps, label_map = lm, interval_s = iv, on_update = cb, thread = None,
      stop_event = False, last_values = Map.empty,
      threads = [], calls = 0, trace = []\<rparr>"

text \<open>\<^verbatim>\<open>Thread.is_alive()\<close>, and the test \<^verbatim>\<open>self._thread and self._thread.is_alive()\<close>.\<close>

definition is_alive :: "world \<Rightarrow> nat \<Rightarrow> bool" where
  "is_alive w t = (t < length (threads w) \<and> threads w ! t)"

definition thread_alive :: "world \<Rightarrow> bool" where
  "thread_alive w = (case thread w of None \<Rightarrow> False | Some t \<Rightarrow> is_alive w t)"

text \<open>The snapshots handed to the callback, in order, and the pins read from the hardware.\<close>

fun updates :: "event list \<Rightarrow> snapshot list" where
  "updates [] = []"
| "updates (e # es) = (case e of Update s \<Rightarrow> s # updates es | _ \<Rightarrow> updates es)"

fun inputs :: "event list \<Rightarrow> int list" where
  "inputs [] = []"
| "inputs (e # es) = (case e of Input p \<Rightarrow> p # inputs es | _ \<Rightarrow> inputs es)"

section \<open>The pull accessor\<close>

text \<open>\<^verbatim>\<open>GPIOMonitor.get_all_states\<close>: one \<^verbatim>\<open>GPIOState\<close> per element of \<^verbatim>\<open>_pins\<close>.\<close>

definition get_all_states :: "'a GPIOMonitor_scheme \<Rightarrow> GPIOState list" where
  "get_all_states m =
     map (\<lambda>p. \<lparr>pin = p,
               value' = (case last_values m p of None \<Rightarrow> 0 | Some v \<Rightarrow> v),
               label = label_map m p\<rparr>) (pins m)"

section \<open>Start and stop\<close>

fun setup_pins :: "gpio \<Rightarrow> int list \<Rightarrow> world \<Rightarrow> error option \<times> world" where
  "setup_pins g [] w = (None, w)"
| "setup_pins g (p # ps) w =
     (case gpio_setup g (calls w) p of
        Some e \<Rightarrow> (Some e, hw_call (Setup p) w)
      | None \<Rightarrow> setup_pins g ps (hw_call (Setup p) w))"

text \<open>\<^verbatim>\<open>GPIOMonitor.start\<close>.\<close>

definition start :: "gpio option \<Rightarrow> world \<Rightarrow> error option \<times> world" where
  "start G w =
     (case G of
        None \<Rightarrow> (None, w)
      | Some g \<Rightarrow>
          if thread_alive w then (None, w)
          else (case gpio_setmode g (calls w) of
                  Some e \<Rightarrow> (Some e, hw_call Setmode w)
                | None \<Rightarrow>
                    (case setup_pins g (pins w) (hw_call Setmode w) of
                       (Some e, w') \<Rightarrow> (Some e, w')
                     | (None, w') \<Rightarrow>
                         (None, w'\<lparr>stop_event := False,
                                   thread := Some (length (threads w')),
                                   threads := threads w' @ [True],
                                   trace := trace w' @ [Spawn (length (threads w'))]\<rparr>))))"

text \<open>
  A loop thread that finds the stop event set returns from \<^verbatim>\<open>_loop\<close> and is dead;
  a loop thread in which an exception is raised and not caught is dead too, and the
  exception is reported.
\<close>

definition loop_exit :: "nat \<Rightarrow> world \<Rightarrow> world" where
  "loop_exit t w = w\<lparr>threads := (threads w)[t := False]\<rparr>"

definition die :: "nat \<Rightarrow> error \<Rightarrow> world \<Rightarrow> world" where
  "die t e w = w\<lparr>threads := (threads w)[t := False], trace := trace w @ [Uncaught e]\<rparr>"

text \<open>
  \<^verbatim>\<open>self._thread.join(timeout=1)\<close>, called by \<open>caller\<close>: \<open>Some t\<close> when the
  call is made on loop thread \<open>t\<close> (from the callback), \<open>None\<close> when it is made on
  any other thread. Joining the current thread raises \<^verbatim>\<open>RuntimeError\<close> before any
  waiting. Otherwise, whether the thread leaves its loop within the timeout is the
  parameter \<open>in_time\<close>; \<^verbatim>\<open>stop\<close> has set the stop event before it joins, so the
  thread that ends in time ends by finding the event set.
\<close>

definition join :: "nat option \<Rightarrow> bool \<Rightarrow> world \<Rightarrow> error option \<times> world" where
  "join caller in_time w =
     (case thread w of
        None \<Rightarrow> (None, w)
      | Some t \<Rightarrow>
          if caller = Some t then (Some RuntimeError, w)
          else (None,
                let w' = w\<lparr>trace := trace w @ [Join 1]\<rparr>
                in if in_time then loop_exit t w' else w'))"

text \<open>\<^verbatim>\<open>GPIOMonitor.stop\<close>, called by \<open>caller\<close>.\<close>

definition stop :: "gpio option \<Rightarrow> nat option \<Rightarrow> bool \<Rightarrow> world \<Rightarrow> error option \<times> world" where
  "stop G caller in_time w =
     (let w1 = w\<lparr>stop_event := True\<rparr>
      in case (if thread_alive w1 then join caller in_time w1 else (None, w1)) of
           (Some e, w2) \<Rightarrow> (Some e, w2)
         | (None, w2) \<Rightarrow>
             (case G of
                None \<Rightarrow> (None, w2)
              | Some g \<Rightarrow> (gpio_cleanup g (calls w2), hw_call Cleanup w2)))"

section \<open>The sampling loop\<close>

text \<open>
  The \<^verbatim>\<open>for pin in self._pins\<close> loop of \<^verbatim>\<open>_loop\<close>. A raising
  \<^verbatim>\<open>GPIO.input\<close> leaves the loop at once: the source has no handler.
\<close>

fun read_pins :: "gpio option \<Rightarrow> int list \<Rightarrow> world \<Rightarrow> error option \<times> world" where
  "read_pins G [] w = (None, w)"
| "read_pins G (p # ps) w =
     (case G of
        None \<Rightarrow> read_pins G ps (w\<lparr>last_values := (last_values w)(p \<mapsto> py_int (PyInt 0))\<rparr>)
      | Some g \<Rightarrow>
          (case gpio_input g (calls w) p of
             Inl e \<Rightarrow> (Some e, hw_call (Input p) w)
           | Inr v \<Rightarrow>
               read_pins G ps
                 ((hw_call (Input p) w)\<lparr>last_values := (last_values w)(p \<mapsto> py_int v)\<rparr>)))"

text \<open>
  \<^verbatim>\<open>self._on_update(AllGPIOStates(all_states))\<close> on loop thread \<open>t\<close>: the call
  is recorded, then the callback reacts.
\<close>

definition invoke :: "gpio option \<Rightarrow> nat \<Rightarrow> snapshot \<Rightarrow> world \<Rightarrow> error option \<times> world" where
  "invoke G t s w =
     (let w' = w\<lparr>trace := trace w @ [Update s]\<rparr>
      in case on_update w (length (updates (trace w))) s of
           Returns \<Rightarrow> (None, w')
         | Raises e \<Rightarrow> (Some e, w')
         | CallsStop in_time \<Rightarrow> stop G (Some t) in_time w')"

text \<open>\<^verbatim>\<open>time.sleep(secs)\<close>: a negative length raises \<^verbatim>\<open>ValueError\<close>.\<close>

definition sleep :: "real \<Rightarrow> world \<Rightarrow> error option \<times> world" where
  "sleep secs w =
     (if secs < 0 then (Some ValueError, w)
      else (None, w\<lparr>trace := trace w @ [Sleep secs]\<rparr>))"

text \<open>
  One pass through \<^verbatim>\<open>while not self._stop.is_set(): ...\<close> by thread \<open>t\<close>: the
  test of the event, then the body. A thread that is not alive does nothing. Nothing in
  the body catches an exception: whatever a read, the callback or the sleep raises ends
  the thread.
\<close>

definition loop_step :: "gpio option \<Rightarrow> nat \<Rightarrow> world \<Rightarrow> world" where
  "loop_step G t w =
     (if \<not> is_alive w t then w
      else if stop_event w then loop_exit t w
      else (case read_pins G (pins w) w of
              (Some e, w1) \<Rightarrow> die t e w1
            | (None, w1) \<Rightarrow>
                (case invoke G t (AllGPIOStates_init (get_all_states w1)) w1 of
                   (Some e, w2) \<Rightarrow> die t e w2
                 | (None, w2) \<Rightarrow>
                     (case sleep (interval_s w2) w2 of
                        (Some e, w3) \<Rightarrow> die t e w3
                      | (None, w3) \<Rightarrow> w3))))"

text \<open>
  \<^verbatim>\<open>_loop\<close> run on its own, with fuel: \<open>None\<close> when the loop is still running
  after \<open>n\<close> passes, \<open>Some w\<close> when the thread has ended in world \<open>w\<close>.
\<close>

fun loop :: "gpio option \<Rightarrow> nat \<Rightarrow> nat \<Rightarrow> world \<Rightarrow> world option" where
  "loop G t 0 w = None"
| "loop G t (Suc n) w =
     (let w' = loop_step G t w in if is_alive w' t then loop G t n w' else Some w')"

section \<open>Runs\<close>

text \<open>
  A run is a sequence of calls by the owner of the monitor, made on a thread that is
  not a loop thread, and of passes of a loop thread, in the order in which they take
  effect. An exception raised to the caller leaves the world as the method left it. A
  pass of the loop is one step of a run: the loop thread alone stores into the cache and
  invokes the callback, and \<^verbatim>\<open>start\<close> and \<^verbatim>\<open>stop\<close> read neither.
\<close>

datatype action = Start | Stop bool | LoopStep nat

fun perform :: "gpio option \<Rightarrow> action \<Rightarrow> world \<Rightarrow> world" where
  "perform G Start w = snd (start G w)"
| "perform G (Stop in_time) w = snd (stop G None in_time w)"
| "perform G (LoopStep t) w = loop_step G t w"

fun exec :: "gpio option \<Rightarrow> action list \<Rightarrow> world \<Rightarrow> world" where
  "exec G [] w = w"
| "exec G (a # as) w = exec G as (perform G a w)"

section \<open>A reader running beside the loop\<close>

text \<open>
  Neither \<^verbatim>\<open>_loop\<close> nor \<^verbatim>\<open>get_all_states\<close> takes a lock: the source creates
  none. Each store \<^verbatim>\<open>self._last_values[pin] = ...\<close> and each lookup
  \<^verbatim>\<open>self._last_values.get(pin, 0)\<close> is one dictionary operation, and a call of
  \<^verbatim>\<open>get_all_states\<close> from another thread makes one lookup per pin while the loop
  goes on storing. \<open>cache_after G w k\<close> is the cache once the pass that starts in
  \<open>w\<close> has gone through its first \<open>k\<close> pins; in \<open>get_all_states_during G w ks\<close>
  the lookup of the \<open>i\<close>-th pin happens after \<open>ks ! i\<close> pins of that pass. A
  schedule never goes back in time.
\<close>

definition cache_after :: "gpio option \<Rightarrow> world \<Rightarrow> nat \<Rightarrow> (int \<rightharpoonup> int)" where
  "cache_after G w k = last_values (snd (read_pins G (take k (pins w)) w))"

definition schedule :: "world \<Rightarrow> nat list \<Rightarrow> bool" where
  "schedule w ks =
     (length ks = length (pins w) \<and> sorted ks \<and> list_all (\<lambda>k. k \<le> length (pins w)) ks)"

definition get_all_states_during :: "gpio option \<Rightarrow> world \<Rightarrow> nat list \<Rightarrow> GPIOState list" where
  "get_all_states_during G w ks =
     map (\<lambda>(p, k). \<lparr>pin = p,
                    value' = (case cache_after G w k p of None \<Rightarrow> 0 | Some v \<Rightarrow> v),
                    label = label_map w p\<rparr>) (zip (pins w) ks)"

section \<open>Example configurations\<close>

text \<open>A callback that returns, one that raises, and one that stops the monitor.\<close>

definition quiet :: "nat \<Rightarrow> snapshot \<Rightarrow> reaction" where
  "quiet n s = Returns"

definition failing :: "nat \<Rightarrow> snapshot \<Rightarrow> reaction" where
  "failing n s = Raises CallbackError"

definition stopping :: "nat \<Rightarrow> snapshot \<Rightarrow> reaction" where
  "stopping n s = CallsStop False"

text \<open>Hardware whose every call succeeds and whose every pin reads \<open>v\<close>.\<close>

definition hw_const :: "pyval \<Rightarrow> gpio" where
  "hw_const v =
     \<lparr>gpio_setmode = (\<lambda>n. None), gpio_setup = (\<lambda>n p. None),
      gpio_input = (\<lambda>n p. Inr v), gpio_cleanup = (\<lambda>n. None)\<rparr>"

definition hw1 :: "gpio option" where
  "hw1 = Some (hw_const (PyInt 1))"


text \<open>Hardware on which reading pin 27 raises; the other pins read 1.\<close>

definition hw_fail27 :: gpio where
  "hw_fail27 =
     \<lparr>gpio_setmode = (\<lambda>n. None), gpio_setup = (\<lambda>n p. None),
      gpio_input = (\<lambda>n p. if p = 27 then Inl RuntimeError else Inr (PyInt 1)),
      gpio_cleanup = (\<lambda>n. None)\<rparr>"

definition hw27 :: "gpio option" where
  "hw27 = Some hw_fail27"

text \<open>Hardware whose seventh call raises when it is a read; every other read returns 1.\<close>

definition hw_fail_once :: gpio where
  "hw_fail_once =
     \<lparr>gpio_setmode = (\<lambda>n. None), gpio_setup = (\<lambda>n p. None),
      gpio_input = (\<lambda>n p. if n = 6 then Inl RuntimeError else Inr (PyInt 1)),
      gpio_cleanup = (\<lambda>n. None)\<rparr>"

definition hw_once :: "gpio option" where
  "hw_once = Some hw_fail_once"

text \<open>Hardware whose pins read 0 during the first five calls into the library and 1 afterwards.\<close>

definition hw_rise :: gpio where
  "hw_rise =
     \<lparr>gpio_setmode = (\<lambda>n. None), gpio_setup = (\<lambda>n p. None),
      gpio_input = (\<lambda>n p. Inr (PyInt (if n < 5 then 0 else 1))),
      gpio_cleanup = (\<lambda>n. None)\<rparr>"

definition hwr :: "gpio option" where
  "hwr = Some hw_rise"

text \<open>Hardware whose pins read 1 and whose \<^verbatim>\<open>cleanup\<close> raises.\<close>

definition hw_no_cleanup :: gpio where
  "hw_no_cleanup =
     \<lparr>gpio_setmode = (\<lambda>n. None), gpio_setup = (\<lambda>n p. None),
      gpio_input = (\<lambda>n p. Inr (PyInt 1)), gpio_cleanup = (\<lambda>n. Some RuntimeError)\<rparr>"

definition hw_dirty :: "gpio option" where
  "hw_dirty = Some hw_no_cleanup"

text \<open>
  The configuration of the specification's end-to-end example; one with a pin listed
  twice; one with three pins; one with the failing pin listed twice; one with a negative
  interval; one whose callback raises; one whose callback stops the monitor.
\<close>

definition cfg_e2e :: world where
  "cfg_e2e = init [17, 27] [17 \<mapsto> ''button''] (1 / 100) quiet"

definition cfg_dup :: world where
  "cfg_dup = init [5, 5] Map.empty 1 quiet"

definition cfg_three :: world where
  "cfg_three = init [17, 27, 22] Map.empty 1 quiet"

definition cfg_twice :: world where
  "cfg_twice = init [27, 17, 27] Map.empty 1 quiet"

definition cfg_neg :: world where
  "cfg_neg = init [17] Map.empty (- 1) quiet"

definition cfg_failing :: world where
  "cfg_failing = init [17] Map.empty 1 failing"

definition cfg_stopping :: world where
  "cfg_stopping = init [17] Map.empty 1 stopping"

definition two_fives :: "GPIOState list" where
  "two_fives =
     [\<lparr>pin = 5, value' = 0, label = None\<rparr>, \<lparr>pin = 5, value' = 1, label = Some ''led''\<rparr>]"

text \<open>The end-to-end configuration on the rising hardware, after the first pass of its loop.\<close>

definition after_first_pass :: world where
  "after_first_pass = exec hwr [Start, LoopStep 0] cfg_e2e"

section \<open>Predicates of the statements\<close>

text \<open>No thread was ever created, nothing was stored and nothing happened outside.\<close>

definition idle :: "world \<Rightarrow> bool" where
  "idle w = (thread w = None \<and> last_values w = Map.empty \<and> threads w = [] \<and> trace w = [])"

text \<open>Every live loop thread is the one the monitor holds in \<^verbatim>\<open>_thread\<close>.\<close>

definition one_loop :: "world \<Rightarrow> bool" where
  "one_loop w = (\<forall>i. is_alive w i \<longrightarrow> thread w = Some i)"

text \<open>A snapshot with one entry for each distinct pin of a pin list, and for nothing else.\<close>

definition complete :: "int list \<Rightarrow> snapshot \<Rightarrow> bool" where
  "complete ps s = (distinct (map fst s) \<and> set (map fst s) = set ps)"




section \<open>Dictionaries built by repeated stores\<close>

lemma map_of_foldl_update:
  "map_of (foldl (\<lambda>d x. AList.update (f x) (g x) d) d0 xs) =
   map_of (rev (map (\<lambda>x. (f x, g x)) xs) @ d0)"
  by (induction xs arbitrary: d0) (simp_all add: update_conv')

lemma map_of_map_find:
  "map_of (map (\<lambda>x. (f x, g x)) xs) k = map_option g (find (\<lambda>x. f x = k) xs)"
  by (induction xs) auto

lemma distinct_foldl_update:
  "distinct (map fst d0) \<Longrightarrow>
   distinct (map fst (foldl (\<lambda>d x. AList.update (f x) (g x) d) d0 xs))"
  by (induction xs arbitrary: d0) (simp_all add: distinct_update)

lemma keys_foldl_update:
  "fst ` set (foldl (\<lambda>d x. AList.update (f x) (g x) d) d0 xs) = f ` set xs \<union> fst ` set d0"
  by (induction xs arbitrary: d0) (auto simp: dom_update)

lemma set_update_cases:
  "(k', v') \<in> set (AList.update k v al) \<Longrightarrow> (k', v') = (k, v) \<or> (k', v') \<in> set al"
  by (induction al) (auto split: if_splits)

lemma set_foldl_update:
  "(k, v) \<in> set (foldl (\<lambda>d x. AList.update (f x) (g x) d) d0 xs) \<Longrightarrow>
   (\<exists>x \<in> set xs. k = f x \<and> v = g x) \<or> (k, v) \<in> set d0"
proof (induction xs arbitrary: d0)
  case Nil
  then show ?case by simp
next
  case (Cons x xs)
  from Cons.IH [of "AList.update (f x) (g x) d0"] Cons.prems
  have "(\<exists>y \<in> set xs. k = f y \<and> v = g y) \<or> (k, v) \<in> set (AList.update (f x) (g x) d0)"
    by simp
  then show ?case
    using set_update_cases [of k v "f x" "g x" d0] by auto
qed

lemma length_AllGPIOStates: "length (AllGPIOStates_init states) = card (pin ` set states)"
proof -
  let ?S = "AllGPIOStates_init states"
  have d: "distinct (map fst ?S)"
    unfolding AllGPIOStates_init_def by (rule distinct_foldl_update) simp
  have "length ?S = length (map fst ?S)" by simp
  also have "\<dots> = card (set (map fst ?S))" using d by (simp only: distinct_card)
  also have "set (map fst ?S) = pin ` set states"
    unfolding AllGPIOStates_init_def by (simp add: keys_foldl_update)
  finally show ?thesis .
qed

lemma card_image_lt_length:
  "\<not> distinct (map f xs) \<Longrightarrow> card (f ` set xs) < length xs"
proof -
  assume nd: "\<not> distinct (map f xs)"
  have "card (set (map f xs)) \<le> length (map f xs)" by (rule card_length)
  moreover have "card (set (map f xs)) \<noteq> length (map f xs)" using nd card_distinct by blast
  ultimately show ?thesis by simp
qed

lemma pin_get_all_states: "map pin (get_all_states m) = pins m"
  by (simp add: get_all_states_def comp_def)

lemma AllGPIOStates_distinct: "distinct (map fst (AllGPIOStates_init states))"
  unfolding AllGPIOStates_init_def by (rule distinct_foldl_update) simp

lemma AllGPIOStates_keys: "fst ` set (AllGPIOStates_init states) = pin ` set states"
  unfolding AllGPIOStates_init_def by (simp add: keys_foldl_update)

lemma AllGPIOStates_entry:
  "(k, d) \<in> set (AllGPIOStates_init states) \<Longrightarrow> \<exists>st \<in> set states. k = pin st \<and> d = state_dict st"
  unfolding AllGPIOStates_init_def
  using set_foldl_update [of k d pin state_dict "[]" states] by auto

section \<open>What each method leaves unchanged\<close>

lemma updates_append: "updates (xs @ ys) = updates xs @ updates ys"
  by (induction xs) (auto split: event.splits)

lemma inputs_append: "inputs (xs @ ys) = inputs xs @ inputs ys"
  by (induction xs) (auto split: event.splits)

lemma inputs_map_Input: "inputs (map Input ps) = ps"
  by (induction ps) auto

lemma updates_map_Input: "updates (map Input ps) = []"
  by (induction ps) auto

lemma read_pins_pins: "pins (snd (read_pins G ps w)) = pins w"
  by (cases G; hypsubst; induction ps arbitrary: w; simp add: hw_call_def split: sum.split)

lemma read_pins_label_map: "label_map (snd (read_pins G ps w)) = label_map w"
  by (cases G; hypsubst; induction ps arbitrary: w; simp add: hw_call_def split: sum.split)

lemma read_pins_interval_s: "interval_s (snd (read_pins G ps w)) = interval_s w"
  by (cases G; hypsubst; induction ps arbitrary: w; simp add: hw_call_def split: sum.split)

lemma read_pins_on_update: "on_update (snd (read_pins G ps w)) = on_update w"
  by (cases G; hypsubst; induction ps arbitrary: w; simp add: hw_call_def split: sum.split)

lemma read_pins_thread: "thread (snd (read_pins G ps w)) = thread w"
  by (cases G; hypsubst; induction ps arbitrary: w; simp add: hw_call_def split: sum.split)

lemma read_pins_stop_event: "stop_event (snd (read_pins G ps w)) = stop_event w"
  by (cases G; hypsubst; induction ps arbitrary: w; simp add: hw_call_def split: sum.split)

lemma read_pins_threads: "threads (snd (read_pins G ps w)) = threads w"
  by (cases G; hypsubst; induction ps arbitrary: w; simp add: hw_call_def split: sum.split)

lemmas read_pins_frame =
  read_pins_pins read_pins_label_map read_pins_interval_s read_pins_on_update read_pins_thread
  read_pins_stop_event read_pins_threads

lemma read_pins_trace:
  "\<exists>qs. trace (snd (read_pins G ps w)) = trace w @ map Input qs \<and>
        (fst (read_pins G ps w) = None \<longrightarrow> qs = (case G of None \<Rightarrow> [] | Some g \<Rightarrow> ps))"
proof (induction ps arbitrary: w)
  case Nil
  show ?case by (cases G) (auto intro: exI [of _ "[]"])
next
  case (Cons p ps)
  show ?case
  proof (cases G)
    case None
    with Cons.IH [of "w\<lparr>last_values := (last_values w)(p \<mapsto> py_int (PyInt 0))\<rparr>"]
    show ?thesis by simp
  next
    case (Some g)
    show ?thesis
    proof (cases "gpio_input g (calls w) p")
      case (Inl e)
      with Some show ?thesis
        by (auto simp: hw_call_def intro: exI [of _ "[p]"])
    next
      case (Inr v)
      from Cons.IH [of "(hw_call (Input p) w)\<lparr>last_values := (last_values w)(p \<mapsto> py_int v)\<rparr>"]
      obtain qs where
        "trace (snd (read_pins G ps ((hw_call (Input p) w)\<lparr>last_values := (last_values w)(p \<mapsto> py_int v)\<rparr>)))
           = trace w @ map Input (p # qs)"
        "fst (read_pins G ps ((hw_call (Input p) w)\<lparr>last_values := (last_values w)(p \<mapsto> py_int v)\<rparr>)) = None
           \<longrightarrow> qs = (case G of None \<Rightarrow> [] | Some g \<Rightarrow> ps)"
        by (auto simp: hw_call_def)
      with Some Inr show ?thesis
        by (intro exI [of _ "p # qs"]) (simp)
    qed
  qed
qed

lemma read_pins_updates: "updates (trace (snd (read_pins G ps w))) = updates (trace w)"
  using read_pins_trace [of G ps w] by (auto simp: updates_append updates_map_Input)

lemma read_pins_other:
  "q \<notin> set ps \<Longrightarrow> last_values (snd (read_pins G ps w)) q = last_values w q"
  by (cases G; hypsubst; induction ps arbitrary: w; simp add: hw_call_def split: sum.split)

lemma setup_pins_pins: "pins (snd (setup_pins g ps w)) = pins w"
  by (induction ps arbitrary: w) (simp_all add: hw_call_def split: option.split)

lemma setup_pins_label_map: "label_map (snd (setup_pins g ps w)) = label_map w"
  by (induction ps arbitrary: w) (simp_all add: hw_call_def split: option.split)

lemma setup_pins_interval_s: "interval_s (snd (setup_pins g ps w)) = interval_s w"
  by (induction ps arbitrary: w) (simp_all add: hw_call_def split: option.split)

lemma setup_pins_on_update: "on_update (snd (setup_pins g ps w)) = on_update w"
  by (induction ps arbitrary: w) (simp_all add: hw_call_def split: option.split)

lemma setup_pins_thread: "thread (snd (setup_pins g ps w)) = thread w"
  by (induction ps arbitrary: w) (simp_all add: hw_call_def split: option.split)

lemma setup_pins_stop_event: "stop_event (snd (setup_pins g ps w)) = stop_event w"
  by (induction ps arbitrary: w) (simp_all add: hw_call_def split: option.split)

lemma setup_pins_last_values: "last_values (snd (setup_pins g ps w)) = last_values w"
  by (induction ps arbitrary: w) (simp_all add: hw_call_def split: option.split)

lemma setup_pins_threads: "threads (snd (setup_pins g ps w)) = threads w"
  by (induction ps arbitrary: w) (simp_all add: hw_call_def split: option.split)

lemmas setup_pins_frame =
  setup_pins_pins setup_pins_label_map setup_pins_interval_s setup_pins_on_update setup_pins_thread
  setup_pins_stop_event setup_pins_last_values setup_pins_threads

lemma setup_pins_updates: "updates (trace (snd (setup_pins g ps w))) = updates (trace w)"
  by (induction ps arbitrary: w) (simp_all add: hw_call_def updates_append split: option.split)

lemma exec_invariant:
  "P w \<Longrightarrow> (\<And>a v. P v \<Longrightarrow> P (perform G a v)) \<Longrightarrow> P (exec G as w)"
  by (induction as arbitrary: w) auto

lemma start_alt:
  "start G w =
     (case G of
        None \<Rightarrow> (None, w)
      | Some g \<Rightarrow>
          if thread_alive w then (None, w)
          else (case gpio_setmode g (calls w) of
                  Some e \<Rightarrow> (Some e, hw_call Setmode w)
                | None \<Rightarrow>
                    (let w' = snd (setup_pins g (pins w) (hw_call Setmode w))
                     in case fst (setup_pins g (pins w) (hw_call Setmode w)) of
                          Some e \<Rightarrow> (Some e, w')
                        | None \<Rightarrow>
                            (None, w'\<lparr>stop_event := False,
                                      thread := Some (length (threads w')),
                                      threads := threads w' @ [True],
                                      trace := trace w' @ [Spawn (length (threads w'))]\<rparr>))))"
  by (simp add: start_def Let_def split: prod.split option.split)

lemma start_pins: "pins (snd (start G w)) = pins w"
  by (simp add: start_alt setup_pins_frame hw_call_def Let_def split: option.split)

lemma start_label_map: "label_map (snd (start G w)) = label_map w"
  by (simp add: start_alt setup_pins_frame hw_call_def Let_def split: option.split)

lemma start_interval_s: "interval_s (snd (start G w)) = interval_s w"
  by (simp add: start_alt setup_pins_frame hw_call_def Let_def split: option.split)

lemma start_on_update: "on_update (snd (start G w)) = on_update w"
  by (simp add: start_alt setup_pins_frame hw_call_def Let_def split: option.split)


lemma start_updates: "updates (trace (snd (start G w))) = updates (trace w)"
  by (simp add: start_alt setup_pins_updates updates_append hw_call_def Let_def split: option.split)

lemma thread_alive_stop_event: "thread_alive (w\<lparr>stop_event := b\<rparr>) = thread_alive w"
  by (simp add: thread_alive_def is_alive_def split: option.split)

lemma join_alt:
  "thread_alive w \<Longrightarrow>
   join c in_time w =
     (if c = thread w then (Some RuntimeError, w)
      else (None,
            if in_time
            then w\<lparr>threads := (threads w)[the (thread w) := False], trace := trace w @ [Join 1]\<rparr>
            else w\<lparr>trace := trace w @ [Join 1]\<rparr>))"
  by (auto simp: join_def thread_alive_def loop_exit_def Let_def split: option.splits)

lemma stop_alt:
  "stop G c in_time w =
     (if thread_alive w \<and> c = thread w then (Some RuntimeError, w\<lparr>stop_event := True\<rparr>)
      else
        (let w2 = (if thread_alive w
                   then (if in_time
                         then w\<lparr>stop_event := True, threads := (threads w)[the (thread w) := False],
                                trace := trace w @ [Join 1]\<rparr>
                         else w\<lparr>stop_event := True, trace := trace w @ [Join 1]\<rparr>)
                   else w\<lparr>stop_event := True\<rparr>)
         in case G of
              None \<Rightarrow> (None, w2)
            | Some g \<Rightarrow> (gpio_cleanup g (calls w2), hw_call Cleanup w2)))"
proof (cases "thread_alive w")
  case True
  then have "thread_alive (w\<lparr>stop_event := True\<rparr>)"
    by (simp add: thread_alive_stop_event)
  from join_alt [OF this, of c in_time] True show ?thesis
    by (simp add: stop_def thread_alive_stop_event Let_def split: option.split)
next
  case False
  then show ?thesis
    by (simp add: stop_def thread_alive_stop_event Let_def)
qed

lemma stop_pins: "pins (snd (stop G c j w)) = pins w"
  by (simp add: stop_alt hw_call_def Let_def split: option.split)

lemma stop_label_map: "label_map (snd (stop G c j w)) = label_map w"
  by (simp add: stop_alt hw_call_def Let_def split: option.split)

lemma stop_interval_s: "interval_s (snd (stop G c j w)) = interval_s w"
  by (simp add: stop_alt hw_call_def Let_def split: option.split)

lemma stop_on_update: "on_update (snd (stop G c j w)) = on_update w"
  by (simp add: stop_alt hw_call_def Let_def split: option.split)

lemma stop_last_values: "last_values (snd (stop G c j w)) = last_values w"
  by (simp add: stop_alt hw_call_def Let_def split: option.split)

lemma stop_thread: "thread (snd (stop G c j w)) = thread w"
  by (simp add: stop_alt hw_call_def Let_def split: option.split)

lemma stop_updates: "updates (trace (snd (stop G c j w))) = updates (trace w)"
  by (simp add: stop_alt hw_call_def updates_append Let_def split: option.split)

lemma stop_inputs: "inputs (trace (snd (stop G c j w))) = inputs (trace w)"
  by (simp add: stop_alt hw_call_def inputs_append Let_def split: option.split)

lemma is_alive_kill: "is_alive (w\<lparr>threads := (threads w)[t := False]\<rparr>) i \<Longrightarrow> is_alive w i"
  by (cases "i = t") (auto simp: is_alive_def)

lemma stop_alive: "is_alive (snd (stop G c j w)) i \<Longrightarrow> is_alive w i"
  by (cases "i = the (thread w)")
     (auto simp: stop_alt is_alive_def hw_call_def Let_def split: if_splits option.splits)

lemmas stop_frame =
  stop_pins stop_label_map stop_interval_s stop_on_update stop_last_values stop_thread

lemma die_fields:
  "pins (die t e w) = pins w" "label_map (die t e w) = label_map w"
  "interval_s (die t e w) = interval_s w" "on_update (die t e w) = on_update w"
  "thread (die t e w) = thread w" "stop_event (die t e w) = stop_event w"
  "last_values (die t e w) = last_values w"
  "trace (die t e w) = trace w @ [Uncaught e]"
  "threads (die t e w) = (threads w)[t := False]"
  by (simp_all add: die_def)

lemma die_dead: "\<not> is_alive (die t e w) t"
  by (simp add: die_def is_alive_def)

lemma die_alive: "is_alive (die t e w) i \<Longrightarrow> is_alive w i"
  by (cases "i = t") (auto simp: die_def is_alive_def)

lemma loop_exit_alive: "is_alive (loop_exit t w) i \<Longrightarrow> is_alive w i"
  by (cases "i = t") (auto simp: loop_exit_def is_alive_def)

lemma sleep_alt:
  "sleep secs w =
     (if secs < 0 then (Some ValueError, w) else (None, w\<lparr>trace := trace w @ [Sleep secs]\<rparr>))"
  by (simp add: sleep_def)

lemma sleep_fields:
  "pins (snd (sleep s w)) = pins w" "label_map (snd (sleep s w)) = label_map w"
  "interval_s (snd (sleep s w)) = interval_s w" "on_update (snd (sleep s w)) = on_update w"
  "thread (snd (sleep s w)) = thread w" "stop_event (snd (sleep s w)) = stop_event w"
  "last_values (snd (sleep s w)) = last_values w" "threads (snd (sleep s w)) = threads w"
  "updates (trace (snd (sleep s w))) = updates (trace w)"
  by (simp_all add: sleep_def updates_append)

lemma invoke_fields:
  "pins (snd (invoke G t s w)) = pins w" "label_map (snd (invoke G t s w)) = label_map w"
  "interval_s (snd (invoke G t s w)) = interval_s w" "on_update (snd (invoke G t s w)) = on_update w"
  "thread (snd (invoke G t s w)) = thread w"
  "last_values (snd (invoke G t s w)) = last_values w"
  by (simp_all add: invoke_def Let_def stop_frame split: reaction.split)

lemma invoke_updates: "updates (trace (snd (invoke G t s w))) = updates (trace w) @ [s]"
  by (simp add: invoke_def Let_def stop_updates updates_append split: reaction.split)

lemma invoke_alive: "is_alive (snd (invoke G t s w)) i \<Longrightarrow> is_alive w i"
proof -
  have a: "is_alive (w\<lparr>trace := x\<rparr>) i = is_alive w i" for x
    by (simp add: is_alive_def)
  assume "is_alive (snd (invoke G t s w)) i"
  then show ?thesis
    by (cases "on_update w (length (updates (trace w))) s")
       (auto simp: invoke_def Let_def a dest: stop_alive)
qed

lemma loop_step_alt:
  "loop_step G t w =
     (if \<not> is_alive w t then w
      else if stop_event w then loop_exit t w
      else (let r = read_pins G (pins w) w
            in case fst r of
                 Some e \<Rightarrow> die t e (snd r)
               | None \<Rightarrow>
                   (let i = invoke G t (AllGPIOStates_init (get_all_states (snd r))) (snd r)
                    in case fst i of
                         Some e \<Rightarrow> die t e (snd i)
                       | None \<Rightarrow>
                           (let s = sleep (interval_s (snd i)) (snd i)
                            in case fst s of
                                 Some e \<Rightarrow> die t e (snd s)
                               | None \<Rightarrow> snd s))))"
  by (simp add: loop_step_def Let_def split: prod.split option.split)

lemma loop_step_pins: "pins (loop_step G t w) = pins w"
  by (simp add: loop_step_alt Let_def loop_exit_def die_fields sleep_fields invoke_fields
      read_pins_frame split: option.split)

lemma loop_step_label_map: "label_map (loop_step G t w) = label_map w"
  by (simp add: loop_step_alt Let_def loop_exit_def die_fields sleep_fields invoke_fields
      read_pins_frame split: option.split)

lemma loop_step_interval_s: "interval_s (loop_step G t w) = interval_s w"
  by (simp add: loop_step_alt Let_def loop_exit_def die_fields sleep_fields invoke_fields
      read_pins_frame split: option.split)

lemma loop_step_on_update: "on_update (loop_step G t w) = on_update w"
  by (simp add: loop_step_alt Let_def loop_exit_def die_fields sleep_fields invoke_fields
      read_pins_frame split: option.split)

lemma loop_step_thread: "thread (loop_step G t w) = thread w"
  by (simp add: loop_step_alt Let_def loop_exit_def die_fields sleep_fields invoke_fields
      read_pins_frame split: option.split)


lemma loop_step_updates:
  "updates (trace (loop_step G t w)) = updates (trace w) \<or>
   updates (trace (loop_step G t w)) =
     updates (trace w) @ [AllGPIOStates_init (get_all_states (snd (read_pins G (pins w) w)))]"
  by (simp add: loop_step_alt Let_def loop_exit_def die_fields sleep_fields invoke_updates
      read_pins_updates updates_append split: option.split)

lemma loop_step_alive: "is_alive (loop_step G t w) i \<Longrightarrow> is_alive w i"
proof -
  have r: "is_alive (snd (read_pins G ps w)) i = is_alive w i" for ps
    by (simp add: is_alive_def read_pins_threads)
  have s: "is_alive (snd (sleep x v)) i = is_alive v i" for x v
    by (simp add: is_alive_def sleep_fields)
  assume "is_alive (loop_step G t w) i"
  then show ?thesis
    by (auto simp: loop_step_alt Let_def r s split: if_splits option.splits
        dest!: die_alive loop_exit_alive invoke_alive)
qed

lemma perform_pins: "pins (perform G a w) = pins w"
  by (cases a) (simp_all add: start_pins stop_pins loop_step_pins)

lemma perform_label_map: "label_map (perform G a w) = label_map w"
  by (cases a) (simp_all add: start_label_map stop_label_map loop_step_label_map)

lemma exec_pins: "pins (exec G as w) = pins w"
  by (induction as arbitrary: w) (simp_all add: perform_pins)

lemma exec_label_map: "label_map (exec G as w) = label_map w"
  by (induction as arbitrary: w) (simp_all add: perform_label_map)

section \<open>Runs without hardware, runs without a pass, and the one loop thread\<close>

lemma idle_init: "idle (init ps lm iv cb)"
  by (simp add: idle_def init_def)

lemma idle_perform_None: "idle w \<Longrightarrow> idle (perform None a w)"
  by (cases a) (simp_all add: idle_def start_def stop_def thread_alive_def loop_step_def is_alive_def)

lemma idle_exec_None: "idle w \<Longrightarrow> idle (exec None as w)"
  by (rule exec_invariant) (simp_all add: idle_perform_None)

lemma get_all_states_empty:
  "last_values m = Map.empty \<Longrightarrow>
   get_all_states m = map (\<lambda>p. \<lparr>pin = p, value' = 0, label = label_map m p\<rparr>) (pins m)"
  by (simp add: get_all_states_def)


lemma one_loop_unique: "one_loop w \<Longrightarrow> is_alive w i \<Longrightarrow> is_alive w j \<Longrightarrow> i = j"
  unfolding one_loop_def by (metis option.inject)

lemma one_loop_init: "one_loop (init ps lm iv cb)"
  by (simp add: one_loop_def init_def is_alive_def)

lemma one_loop_loop_step: "one_loop w \<Longrightarrow> one_loop (loop_step G t w)"
  unfolding one_loop_def by (metis loop_step_alive loop_step_thread)

lemma one_loop_stop: "one_loop w \<Longrightarrow> one_loop (snd (stop G c j w))"
  unfolding one_loop_def by (metis stop_alive stop_thread)

lemma start_spawns:
  "G = Some g \<Longrightarrow> \<not> thread_alive w \<Longrightarrow> fst (start G w) = None \<Longrightarrow>
   thread (snd (start G w)) = Some (length (threads w)) \<and>
   threads (snd (start G w)) = threads w @ [True]"
  by (auto simp: start_alt Let_def setup_pins_frame hw_call_def split: option.splits)

lemma start_fails:
  "fst (start G w) = Some e \<Longrightarrow>
   thread (snd (start G w)) = thread w \<and> threads (snd (start G w)) = threads w"
  by (auto simp: start_alt Let_def setup_pins_frame hw_call_def split: option.splits if_splits)

lemma start_running: "thread_alive w \<or> G = None \<Longrightarrow> start G w = (None, w)"
  by (auto simp: start_def split: option.splits)

lemma one_loop_start: "one_loop w \<Longrightarrow> one_loop (snd (start G w))"
proof (cases "thread_alive w \<or> G = None")
  case True
  assume "one_loop w"
  with start_running [OF True] show ?thesis by simp
next
  case False
  assume a: "one_loop w"
  from False obtain g where g: "G = Some g" and na: "\<not> thread_alive w" by auto
  from a na have dead: "\<not> is_alive w i" for i
    by (auto simp: one_loop_def thread_alive_def)
  show ?thesis
  proof (cases "fst (start G w)")
    case None
    from start_spawns [OF g na None] dead show ?thesis
      by (auto simp: one_loop_def is_alive_def nth_append split: if_splits)
  next
    case (Some e)
    from start_fails [OF Some] dead show ?thesis
      by (auto simp: one_loop_def is_alive_def)
  qed
qed

lemma one_loop_perform: "one_loop w \<Longrightarrow> one_loop (perform G a w)"
  by (cases a) (simp_all add: one_loop_start one_loop_stop one_loop_loop_step)

lemma one_loop_exec: "one_loop w \<Longrightarrow> one_loop (exec G as w)"
  by (rule exec_invariant) (simp_all add: one_loop_perform)

lemma start_twice:
  "fst (start G w) = None \<Longrightarrow> start G (snd (start G w)) = (None, snd (start G w))"
proof (cases "thread_alive w \<or> G = None")
  case True
  from start_running [OF True] show ?thesis by simp
next
  case False
  assume ok: "fst (start G w) = None"
  from False obtain g where g: "G = Some g" and na: "\<not> thread_alive w" by auto
  from start_spawns [OF g na ok] have "thread_alive (snd (start G w))"
    by (simp add: thread_alive_def is_alive_def)
  then show ?thesis by (simp add: start_running)
qed

lemma complete_AllGPIOStates: "complete (pins m) (AllGPIOStates_init (get_all_states m))"
proof -
  have "set (map fst (AllGPIOStates_init (get_all_states m))) = set (map pin (get_all_states m))"
    by (simp add: AllGPIOStates_keys)
  then show ?thesis
    by (simp only: complete_def AllGPIOStates_distinct pin_get_all_states simp_thms)
qed

lemma complete_perform:
  assumes "list_all (complete (pins w)) (updates (trace w))"
  shows "list_all (complete (pins w)) (updates (trace (perform G a w)))"
proof (cases a)
  case Start
  with assms show ?thesis by (simp add: start_updates)
next
  case (Stop j)
  with assms show ?thesis by (simp add: stop_updates)
next
  case (LoopStep t)
  have "complete (pins w) (AllGPIOStates_init (get_all_states (snd (read_pins G (pins w) w))))"
    using complete_AllGPIOStates [of "snd (read_pins G (pins w) w)"]
    by (simp add: read_pins_pins)
  with assms loop_step_updates [of G t w] LoopStep show ?thesis
    by auto
qed

lemma complete_exec:
  "list_all (complete (pins w)) (updates (trace w)) \<Longrightarrow>
   list_all (complete (pins w)) (updates (trace (exec G as w)))"
proof (induction as arbitrary: w)
  case Nil
  then show ?case by simp
next
  case (Cons a as)
  from Cons.prems have "list_all (complete (pins (perform G a w))) (updates (trace (perform G a w)))"
    by (simp add: complete_perform perform_pins)
  from Cons.IH [OF this] show ?case
    by (simp add: perform_pins)
qed













section \<open>Evaluating the examples\<close>

lemmas run_defs =
  start_def stop_def join_def loop_step_def invoke_def sleep_def die_def loop_exit_def
  hw_call_def init_def thread_alive_def is_alive_def
  hw1_def hw_const_def cfg_e2e_def quiet_def Let_def

lemma started_e2e:
  "snd (start hw1 cfg_e2e) =
     \<lparr>pins = [17, 27], label_map = [17 \<mapsto> ''button''], interval_s = 1 / 100,
      on_update = quiet,
      thread = Some 0, stop_event = False, last_values = Map.empty,
      threads = [True], calls = 3, trace = [Setmode, Setup 17, Setup 27, Spawn 0]\<rparr>"
  by (simp add: start_def hw_call_def init_def thread_alive_def hw1_def hw_const_def cfg_e2e_def)

lemma run_dup:
  "loop_step hw1 0 (snd (start hw1 cfg_dup)) =
     \<lparr>pins = [5, 5], label_map = Map.empty, interval_s = 1, on_update = quiet,
      thread = Some 0, stop_event = False, last_values = [5 \<mapsto> 1],
      threads = [True], calls = 5,
      trace = [Setmode, Setup 5, Setup 5, Spawn 0, Input 5, Input 5,
               Update [(5, [(''pin'', FInt 5), (''value'', FInt 1), (''label'', FNone)])],
               Sleep 1]\<rparr>"
  by (simp add: run_defs cfg_dup_def AllGPIOStates_init_def get_all_states_def state_dict_def)



section \<open>Degraded mode\<close>



text \<open>
  C5, as the code has it. Without the hardware library \<^verbatim>\<open>start\<close> creates no
  thread: in every run no loop thread exists, the callback is never invoked, and
  \<^verbatim>\<open>get_all_states\<close> returns every configured pin with value 0.
\<close>

theorem degraded_callback_never_fires:
  "threads (exec None as (init ps lm iv cb)) = [] \<and>
   updates (trace (exec None as (init ps lm iv cb))) = [] \<and>
   get_all_states (exec None as (init ps lm iv cb)) =
     map (\<lambda>p. \<lparr>pin = p, value' = 0, label = lm p\<rparr>) ps"
proof -
  have c: "pins (exec None as (init ps lm iv cb)) = ps \<and> label_map (exec None as (init ps lm iv cb)) = lm"
    by (simp add: exec_pins exec_label_map init_def)
  have i: "idle (exec None as (init ps lm iv cb))"
    by (rule idle_exec_None) (rule idle_init)
  then have "last_values (exec None as (init ps lm iv cb)) = Map.empty"
    by (simp add: idle_def)
  from get_all_states_empty [OF this] i show ?thesis
    by (simp add: c idle_def)
qed

text \<open>
  C5 as stated fails: on the configuration of the end-to-end example without hardware,
  \<^verbatim>\<open>start\<close> returns with no thread created, \<^verbatim>\<open>_loop\<close> is not running, and
  no snapshot reaches the callback however often the scheduler looks for a loop thread.
\<close>

theorem degraded_stream_counterexample:
  "start None cfg_e2e = (None, cfg_e2e) \<and>
   threads cfg_e2e = [] \<and>
   loop None 0 3 cfg_e2e = Some cfg_e2e \<and>
   updates (trace (exec None [Start, LoopStep 0, LoopStep 0, LoopStep 0] cfg_e2e)) = []"
  by (simp add: start_def cfg_e2e_def init_def loop_step_def is_alive_def numeral_3_eq_3)

section \<open>Completeness and values of what is reported\<close>

text \<open>
  C1, as the code has it. In every run, with or without hardware, the list returned by
  \<^verbatim>\<open>get_all_states\<close> has one entry for each element of the configured pin list,
  in its order, and every snapshot handed to the callback has one entry for each
  distinct configured pin identifier and no other entry.
\<close>

theorem snapshots_cover_configured_pins:
  "map pin (get_all_states (exec G as (init ps lm iv cb))) = ps \<and>
   (\<forall>s \<in> set (updates (trace (exec G as (init ps lm iv cb)))).
      distinct (map fst s) \<and> set (map fst s) = set ps)"
proof
  show "map pin (get_all_states (exec G as (init ps lm iv cb))) = ps"
    by (simp add: pin_get_all_states exec_pins init_def)
  have "list_all (complete (pins (init ps lm iv cb))) (updates (trace (init ps lm iv cb)))"
    by (simp add: init_def)
  then have "list_all (complete (pins (init ps lm iv cb))) (updates (trace (exec G as (init ps lm iv cb))))"
    by (rule complete_exec)
  then show "\<forall>s \<in> set (updates (trace (exec G as (init ps lm iv cb)))).
      distinct (map fst s) \<and> set (map fst s) = set ps"
    by (simp add: list_all_iff complete_def init_def)
qed

theorem snapshots_cover_configured_pins_witness:
  "[(5, [(''pin'', FInt 5), (''value'', FInt 1), (''label'', FNone)])]
     \<in> set (updates (trace (exec hw1 [Start, LoopStep 0] cfg_dup))) \<and>
   set (map fst [(5 :: int, [(''pin'', FInt 5), (''value'', FInt 1), (''label'', FNone)])]) = set [5, 5] \<and>
   map pin (get_all_states (exec hw1 [Start, LoopStep 0] cfg_dup)) = [5, 5]"
proof -
  note T = snapshots_cover_configured_pins
    [where G = hw1 and as = "[Start, LoopStep 0]" and ps = "[5, 5]" and lm = Map.empty and iv = 1
       and cb = quiet,
     folded cfg_dup_def]
  have m: "[(5, [(''pin'', FInt 5), (''value'', FInt 1), (''label'', FNone)])]
     \<in> set (updates (trace (exec hw1 [Start, LoopStep 0] cfg_dup)))"
    by (simp add: run_dup)
  have c: "set (map fst [(5 :: int, [(''pin'', FInt 5), (''value'', FInt 1), (''label'', FNone)])]) = set [5, 5]"
    by (rule bspec [OF T [THEN conjunct2] m, THEN conjunct2])
  show ?thesis
    by (simp only: m c T [THEN conjunct1] simp_thms)
qed

text \<open>
  C1 as stated fails where the pin list names a pin twice: for the pins \<open>[5, 5]\<close> the
  list returned by \<^verbatim>\<open>get_all_states\<close> has two entries for pin 5 and the snapshot
  handed to the callback has one, so no way of counting configured pins gives both of
  them one entry per configured pin.
\<close>

theorem one_entry_per_pin_counterexample:
  "pins cfg_dup = [5, 5] \<and>
   map pin (get_all_states (exec hw1 [Start, LoopStep 0] cfg_dup)) = [5, 5] \<and>
   updates (trace (exec hw1 [Start, LoopStep 0] cfg_dup)) =
     [[(5, [(''pin'', FInt 5), (''value'', FInt 1), (''label'', FNone)])]]"
  by (simp add: run_dup) (simp add: cfg_dup_def init_def get_all_states_def)




section \<open>The snapshot container\<close>

lemma map_of_AllGPIOStates:
  "map_of (AllGPIOStates_init states) k =
     (case find (\<lambda>st. pin st = k) (rev states) of
        None \<Rightarrow> None
      | Some st \<Rightarrow>
          Some [(''pin'', FInt k), (''value'', FInt (value' st)),
                (''label'', (case label st of None \<Rightarrow> FNone | Some x \<Rightarrow> FStr x))])"
proof -
  have "map_of (AllGPIOStates_init states) k =
        map_option state_dict (find (\<lambda>st. pin st = k) (rev states))"
    unfolding AllGPIOStates_init_def
    by (simp add: map_of_foldl_update rev_map map_of_map_find)
  then show ?thesis
    by (auto simp: state_dict_def split: option.splits dest: find_Some_iff [THEN iffD1])
qed

text \<open>
  C10. For every list of states, \<^verbatim>\<open>AllGPIOStates\<close> has one entry per distinct pin
  identifier of the list, and the keys are exactly the identifiers of the list. Every
  entry is the dictionary of the three fields pin, value and label, in this order, of a
  state of the list whose pin is the entry's key; looked up by a pin, the snapshot gives
  the pin, value and label of the last state of the list with that pin. When the
  configured pin list names a pin twice, the snapshot built from what
  \<^verbatim>\<open>get_all_states\<close> returns has fewer entries than that list.
\<close>

theorem AllGPIOStates_one_entry_per_pin:
  "distinct (map fst (AllGPIOStates_init states)) \<and>
   fst ` set (AllGPIOStates_init states) = pin ` set states \<and>
   (\<forall>(k, d) \<in> set (AllGPIOStates_init states).
      \<exists>st \<in> set states.
        pin st = k \<and>
        d = [(''pin'', FInt k), (''value'', FInt (value' st)),
             (''label'', (case label st of None \<Rightarrow> FNone | Some x \<Rightarrow> FStr x))]) \<and>
   (\<forall>k. map_of (AllGPIOStates_init states) k =
      (case find (\<lambda>st. pin st = k) (rev states) of
         None \<Rightarrow> None
       | Some st \<Rightarrow>
           Some [(''pin'', FInt k), (''value'', FInt (value' st)),
                 (''label'', (case label st of None \<Rightarrow> FNone | Some x \<Rightarrow> FStr x))])) \<and>
   (\<forall>m :: world. \<not> distinct (pins m) \<longrightarrow>
      length (AllGPIOStates_init (get_all_states m)) < length (get_all_states m))"
proof (intro conjI allI impI)
  show "distinct (map fst (AllGPIOStates_init states))"
    by (rule AllGPIOStates_distinct)
  show "fst ` set (AllGPIOStates_init states) = pin ` set states"
    by (rule AllGPIOStates_keys)
  show "\<forall>(k, d) \<in> set (AllGPIOStates_init states).
      \<exists>st \<in> set states.
        pin st = k \<and>
        d = [(''pin'', FInt k), (''value'', FInt (value' st)),
             (''label'', (case label st of None \<Rightarrow> FNone | Some x \<Rightarrow> FStr x))]"
  proof (clarify)
    fix k d assume "(k, d) \<in> set (AllGPIOStates_init states)"
    from AllGPIOStates_entry [OF this] obtain st
      where "st \<in> set states" "k = pin st" "d = state_dict st" by blast
    then show "\<exists>st \<in> set states.
        pin st = k \<and>
        d = [(''pin'', FInt k), (''value'', FInt (value' st)),
             (''label'', (case label st of None \<Rightarrow> FNone | Some x \<Rightarrow> FStr x))]"
      by (auto simp: state_dict_def)
  qed
  show "map_of (AllGPIOStates_init states) k =
      (case find (\<lambda>st. pin st = k) (rev states) of
         None \<Rightarrow> None
       | Some st \<Rightarrow>
           Some [(''pin'', FInt k), (''value'', FInt (value' st)),
                 (''label'', (case label st of None \<Rightarrow> FNone | Some x \<Rightarrow> FStr x))])" for k
    by (rule map_of_AllGPIOStates)
  show "length (AllGPIOStates_init (get_all_states m)) < length (get_all_states m)"
    if "\<not> distinct (pins m)" for m :: world
  proof -
    from that have "\<not> distinct (map pin (get_all_states m))"
      by (simp add: pin_get_all_states)
    then have "card (pin ` set (get_all_states m)) < length (get_all_states m)"
      by (rule card_image_lt_length)
    then show ?thesis
      by (simp add: length_AllGPIOStates)
  qed
qed

theorem AllGPIOStates_one_entry_per_pin_witness:
  "AllGPIOStates_init two_fives =
     [(5, [(''pin'', FInt 5), (''value'', FInt 1), (''label'', FStr ''led'')])] \<and>
   map_of (AllGPIOStates_init two_fives) 5 =
     Some [(''pin'', FInt 5), (''value'', FInt 1), (''label'', FStr ''led'')] \<and>
   length (get_all_states cfg_dup) = 2 \<and>
   length (AllGPIOStates_init (get_all_states cfg_dup)) < length (get_all_states cfg_dup)"
proof -
  note T = AllGPIOStates_one_entry_per_pin [of two_fives]
  have f: "find (\<lambda>st. pin st = 5) (rev two_fives) = Some \<lparr>pin = 5, value' = 1, label = Some ''led''\<rparr>"
    by (simp add: two_fives_def)
  have d: "\<not> distinct (pins cfg_dup)"
    by (simp add: cfg_dup_def init_def)
  have m: "map_of (AllGPIOStates_init two_fives) 5 =
     Some [(''pin'', FInt 5), (''value'', FInt 1), (''label'', FStr ''led'')]"
    using T [THEN conjunct2, THEN conjunct2, THEN conjunct2, THEN conjunct1, THEN spec, of 5]
    by (simp only: f option.case GPIOState.simps)
  have k: "fst ` set (AllGPIOStates_init two_fives) = {5}"
    using T [THEN conjunct2, THEN conjunct1] by (simp add: two_fives_def)
  have dk: "distinct (map fst (AllGPIOStates_init two_fives))"
    by (rule T [THEN conjunct1])
  have a: "AllGPIOStates_init two_fives =
     [(5, [(''pin'', FInt 5), (''value'', FInt 1), (''label'', FStr ''led'')])]"
  proof (cases "AllGPIOStates_init two_fives")
    case Nil
    with k show ?thesis by simp
  next
    case (Cons x xs)
    with k have x: "fst x = 5" by auto
    have "xs = []"
    proof (cases xs)
      case Nil
      then show ?thesis .
    next
      case (Cons y ys)
      with \<open>AllGPIOStates_init two_fives = x # xs\<close> k have "fst y = 5" by auto
      with x dk Cons \<open>AllGPIOStates_init two_fives = x # xs\<close> show ?thesis by simp
    qed
    with Cons m x show ?thesis
      by (cases x) (simp split: if_splits)
  qed
  have e: "length (AllGPIOStates_init (get_all_states cfg_dup)) < length (get_all_states cfg_dup)"
    by (rule T [THEN conjunct2, THEN conjunct2, THEN conjunct2, THEN conjunct2, THEN spec, THEN mp, OF d])
  have l: "length (get_all_states cfg_dup) = 2"
    by (simp add: get_all_states_def cfg_dup_def init_def)
  show ?thesis
    by (intro conjI) (rule a m l e)+
qed

section \<open>One pass of the loop\<close>

lemma read_pins_frame_cache:
  "w1 = w2\<lparr>last_values := c\<rparr> \<Longrightarrow>
   fst (read_pins G ps w1) = fst (read_pins G ps w2) \<and>
   (\<exists>c'. snd (read_pins G ps w1) = (snd (read_pins G ps w2))\<lparr>last_values := c'\<rparr>)"
proof (induction ps arbitrary: w1 w2 c)
  case Nil
  then show ?case by (auto intro: exI [of _ c])
next
  case (Cons p ps)
  show ?case
  proof (cases G)
    case None
    have "w1\<lparr>last_values := (last_values w1)(p \<mapsto> 0)\<rparr> =
          (w2\<lparr>last_values := (last_values w2)(p \<mapsto> 0)\<rparr>)\<lparr>last_values := (last_values w1)(p \<mapsto> 0)\<rparr>"
      using Cons.prems by simp
    from Cons.IH [OF this] None show ?thesis by simp
  next
    case (Some g)
    have k: "calls w1 = calls w2" using Cons.prems by simp
    show ?thesis
    proof (cases "gpio_input g (calls w2) p")
      case (Inl e)
      with Some k Cons.prems show ?thesis
        by (auto simp: hw_call_def intro: exI [of _ c])
    next
      case (Inr v)
      have "(hw_call (Input p) w1)\<lparr>last_values := (last_values w1)(p \<mapsto> py_int v)\<rparr> =
            ((hw_call (Input p) w2)\<lparr>last_values := (last_values w2)(p \<mapsto> py_int v)\<rparr>)
              \<lparr>last_values := (last_values w1)(p \<mapsto> py_int v)\<rparr>"
        using Cons.prems by (simp add: hw_call_def)
      from Cons.IH [OF this] Some Inr k show ?thesis by simp
    qed
  qed
qed

lemma read_pins_written:
  "fst (read_pins G ps w1) = None \<Longrightarrow> fst (read_pins G ps w2) = None \<Longrightarrow>
   calls w1 = calls w2 \<Longrightarrow> q \<in> set ps \<Longrightarrow>
   last_values (snd (read_pins G ps w1)) q = last_values (snd (read_pins G ps w2)) q"
proof (induction ps arbitrary: w1 w2)
  case Nil
  then show ?case by simp
next
  case (Cons p ps)
  show ?case
  proof (cases G)
    case None
    let ?v1 = "w1\<lparr>last_values := (last_values w1)(p \<mapsto> 0)\<rparr>"
    let ?v2 = "w2\<lparr>last_values := (last_values w2)(p \<mapsto> 0)\<rparr>"
    show ?thesis
    proof (cases "q \<in> set ps")
      case True
      from Cons.prems None have "fst (read_pins G ps ?v1) = None" "fst (read_pins G ps ?v2) = None"
        "calls ?v1 = calls ?v2" by simp_all
      from Cons.IH [OF this True] None show ?thesis by simp
    next
      case False
      with Cons.prems have "q = p" by simp
      with False None show ?thesis by (simp add: read_pins_other)
    qed
  next
    case (Some g)
    from Cons.prems(1) Some obtain v where v: "gpio_input g (calls w1) p = Inr v"
      by (cases "gpio_input g (calls w1) p") simp_all
    let ?v1 = "(hw_call (Input p) w1)\<lparr>last_values := (last_values w1)(p \<mapsto> py_int v)\<rparr>"
    let ?v2 = "(hw_call (Input p) w2)\<lparr>last_values := (last_values w2)(p \<mapsto> py_int v)\<rparr>"
    from v Cons.prems(3) have v2: "gpio_input g (calls w2) p = Inr v" by simp
    show ?thesis
    proof (cases "q \<in> set ps")
      case True
      from Cons.prems Some v v2 have "fst (read_pins G ps ?v1) = None" "fst (read_pins G ps ?v2) = None"
        "calls ?v1 = calls ?v2" by (simp_all add: hw_call_def)
      from Cons.IH [OF this True] Some v v2 show ?thesis by simp
    next
      case False
      with Cons.prems have "q = p" by simp
      with False Some v v2 show ?thesis by (simp add: read_pins_other hw_call_def)
    qed
  qed
qed

lemma get_all_states_cong:
  "pins a = pins b \<Longrightarrow> label_map a = label_map b \<Longrightarrow>
   (\<And>q. q \<in> set (pins a) \<Longrightarrow> last_values a q = last_values b q) \<Longrightarrow>
   get_all_states a = get_all_states b"
  by (simp add: get_all_states_def)

lemma snapshot_ignores_old_cache:
  assumes "fst (read_pins G (pins w) w) = None"
  shows "get_all_states (snd (read_pins G (pins w) (w\<lparr>last_values := c\<rparr>))) =
         get_all_states (snd (read_pins G (pins w) w))"
proof (rule get_all_states_cong)
  let ?w1 = "w\<lparr>last_values := c\<rparr>"
  show "pins (snd (read_pins G (pins w) ?w1)) = pins (snd (read_pins G (pins w) w))"
    by (simp add: read_pins_pins)
  show "label_map (snd (read_pins G (pins w) ?w1)) = label_map (snd (read_pins G (pins w) w))"
    by (simp add: read_pins_label_map)
  fix q assume "q \<in> set (pins (snd (read_pins G (pins w) ?w1)))"
  then have q: "q \<in> set (pins w)" by (simp add: read_pins_pins)
  have "fst (read_pins G (pins w) ?w1) = fst (read_pins G (pins w) w)"
    using read_pins_frame_cache [where ?w1.0 = ?w1 and ?w2.0 = w and c = c and G = G and ps = "pins w"] by simp
  with assms have f: "fst (read_pins G (pins w) ?w1) = None" by simp
  have "calls ?w1 = calls w" by simp
  from read_pins_written [OF f assms this q]
  show "last_values (snd (read_pins G (pins w) ?w1)) q = last_values (snd (read_pins G (pins w) w)) q" .
qed

lemma read_pins_value:
  "fst (read_pins (Some g) ps w) = None \<Longrightarrow> i < length ps \<Longrightarrow> ps ! i \<notin> set (drop (Suc i) ps) \<Longrightarrow>
   \<exists>v. gpio_input g (calls w + i) (ps ! i) = Inr v \<and>
       last_values (snd (read_pins (Some g) ps w)) (ps ! i) = Some (py_int v)"
proof (induction ps arbitrary: w i)
  case Nil
  then show ?case by simp
next
  case (Cons p ps)
  from Cons.prems(1) obtain v where v: "gpio_input g (calls w) p = Inr v"
    by (cases "gpio_input g (calls w) p") simp_all
  let ?w1 = "(hw_call (Input p) w)\<lparr>last_values := (last_values w)(p \<mapsto> py_int v)\<rparr>"
  from Cons.prems(1) v have ok: "fst (read_pins (Some g) ps ?w1) = None" by simp
  show ?case
  proof (cases i)
    case 0
    with Cons.prems(3) have "p \<notin> set ps" by simp
    then have "last_values (snd (read_pins (Some g) ps ?w1)) p = last_values ?w1 p"
      by (rule read_pins_other)
    with 0 v show ?thesis by (simp add: hw_call_def)
  next
    case (Suc k)
    with Cons.prems have "k < length ps" "ps ! k \<notin> set (drop (Suc k) ps)" by simp_all
    from Cons.IH [OF ok this] Suc v show ?thesis
      by (simp add: hw_call_def)
  qed
qed

lemma read_pins_None_value:
  "q \<in> set ps \<Longrightarrow> last_values (snd (read_pins None ps w)) q = Some 0"
proof (induction ps arbitrary: w)
  case Nil
  then show ?case by simp
next
  case (Cons p ps)
  show ?case
  proof (cases "q \<in> set ps")
    case True
    from Cons.IH [OF this] show ?thesis by simp
  next
    case False
    with Cons.prems have "q = p" by simp
    with False show ?thesis by (simp add: read_pins_other)
  qed
qed

lemma read_pins_trace_ok:
  "fst (read_pins G ps w) = None \<Longrightarrow>
   trace (snd (read_pins G ps w)) = trace w @ (case G of None \<Rightarrow> [] | Some g \<Rightarrow> map Input ps)"
  using read_pins_trace [of G ps w] by (cases G) auto

lemma read_pins_None_ok: "fst (read_pins None ps w) = None"
  by (induction ps arbitrary: w) simp_all

lemma read_pins_append:
  "read_pins G (xs @ ys) w =
     (case fst (read_pins G xs w) of
        Some e \<Rightarrow> read_pins G xs w
      | None \<Rightarrow> read_pins G ys (snd (read_pins G xs w)))"
proof (induction xs arbitrary: w)
  case Nil
  show ?case by simp
next
  case (Cons x xs)
  show ?case
  proof (cases G)
    case None
    with Cons.IH show ?thesis by (simp split: option.split)
  next
    case (Some g)
    with Cons.IH show ?thesis
      by (cases "gpio_input g (calls w) x") (simp_all split: option.split)
  qed
qed

lemma read_pins_calls_ok:
  "fst (read_pins (Some g) ps w) = None \<Longrightarrow>
   calls (snd (read_pins (Some g) ps w)) = calls w + length ps"
proof (induction ps arbitrary: w)
  case Nil
  show ?case by simp
next
  case (Cons p ps)
  from Cons.prems obtain v where v: "gpio_input g (calls w) p = Inr v"
    by (cases "gpio_input g (calls w) p") simp_all
  let ?w1 = "(hw_call (Input p) w)\<lparr>last_values := (last_values w)(p \<mapsto> py_int v)\<rparr>"
  from Cons.prems v have "fst (read_pins (Some g) ps ?w1) = None" by simp
  from Cons.IH [OF this] v show ?case by (simp add: hw_call_def)
qed

lemma read_pins_fail_index:
  "fst (read_pins G ps w) = Some e \<Longrightarrow>
   \<exists>g i. G = Some g \<and> i < length ps \<and>
         gpio_input g (calls w + i) (ps ! i) = Inl e \<and>
         fst (read_pins G (take i ps) w) = None \<and>
         snd (read_pins G ps w) = hw_call (Input (ps ! i)) (snd (read_pins G (take i ps) w))"
proof (induction ps arbitrary: w)
  case Nil
  then show ?case by simp
next
  case (Cons p ps)
  from Cons.prems obtain g where g: "G = Some g"
    by (cases G) (simp_all add: read_pins_None_ok)
  show ?case
  proof (cases "gpio_input g (calls w) p")
    case (Inl e')
    with Cons.prems g have "e' = e" by simp
    with Inl g have
      "0 < length (p # ps) \<and> gpio_input g (calls w + 0) ((p # ps) ! 0) = Inl e \<and>
       fst (read_pins G (take 0 (p # ps)) w) = None \<and>
       snd (read_pins G (p # ps) w) =
         hw_call (Input ((p # ps) ! 0)) (snd (read_pins G (take 0 (p # ps)) w))"
      by simp
    with g show ?thesis by blast
  next
    case (Inr v)
    let ?w1 = "(hw_call (Input p) w)\<lparr>last_values := (last_values w)(p \<mapsto> py_int v)\<rparr>"
    from Cons.prems g Inr have "fst (read_pins G ps ?w1) = Some e" by simp
    from Cons.IH [OF this] obtain g' i where i:
      "G = Some g'" "i < length ps" "gpio_input g' (calls ?w1 + i) (ps ! i) = Inl e"
      "fst (read_pins G (take i ps) ?w1) = None"
      "snd (read_pins G ps ?w1) = hw_call (Input (ps ! i)) (snd (read_pins G (take i ps) ?w1))"
      by blast
    from i(1) g have gg: "g' = g" by simp
    from i gg g Inr have
      "Suc i < length (p # ps) \<and> gpio_input g (calls w + Suc i) ((p # ps) ! Suc i) = Inl e \<and>
       fst (read_pins G (take (Suc i) (p # ps)) w) = None \<and>
       snd (read_pins G (p # ps) w) =
         hw_call (Input ((p # ps) ! Suc i)) (snd (read_pins G (take (Suc i) (p # ps)) w))"
      by (simp add: hw_call_def)
    with g show ?thesis by blast
  qed
qed

lemma read_pins_fails_at:
  "i < length ps \<Longrightarrow> gpio_input g (calls w + i) (ps ! i) = Inl e \<Longrightarrow>
   \<forall>j < i. \<exists>v. gpio_input g (calls w + j) (ps ! j) = Inr v \<Longrightarrow>
   fst (read_pins (Some g) ps w) = Some e"
proof (induction ps arbitrary: w i)
  case Nil
  then show ?case by simp
next
  case (Cons p ps)
  show ?case
  proof (cases i)
    case 0
    with Cons.prems show ?thesis by simp
  next
    case (Suc k)
    with Cons.prems(3) obtain v where v: "gpio_input g (calls w) p = Inr v"
      by fastforce
    let ?w1 = "(hw_call (Input p) w)\<lparr>last_values := (last_values w)(p \<mapsto> py_int v)\<rparr>"
    have c: "calls ?w1 = Suc (calls w)" by (simp add: hw_call_def)
    from Cons.prems Suc have k: "k < length ps" "gpio_input g (calls ?w1 + k) (ps ! k) = Inl e"
      by (simp_all add: c)
    have "\<forall>j < k. \<exists>v. gpio_input g (calls ?w1 + j) (ps ! j) = Inr v"
    proof (intro allI impI)
      fix j assume "j < k"
      with Suc have "Suc j < i" by simp
      with Cons.prems(3) have "\<exists>v. gpio_input g (calls w + Suc j) ((p # ps) ! Suc j) = Inr v"
        by blast
      then show "\<exists>v. gpio_input g (calls ?w1 + j) (ps ! j) = Inr v"
        by (simp add: c)
    qed
    from Cons.IH [OF k this] v show ?thesis by simp
  qed
qed

lemma loop_step_raises:
  assumes "is_alive w t" "\<not> stop_event w" "fst (read_pins G (pins w) w) = Some e"
  shows "loop_step G t w = die t e (snd (read_pins G (pins w) w))"
  using assms by (simp add: loop_step_alt Let_def)

lemma cache_after_value:
  assumes ok: "fst (read_pins (Some g) (take i ps) w) = None" and j: "j < i" and i: "i \<le> length ps"
    and last: "ps ! j \<notin> set (drop (Suc j) (take i ps))"
  shows "\<exists>v. gpio_input g (calls w + j) (ps ! j) = Inr v \<and>
             last_values (snd (read_pins (Some g) (take i ps) w)) (ps ! j) = Some (py_int v)"
proof -
  from j i have l: "j < length (take i ps)" by simp
  from j have n: "take i ps ! j = ps ! j" by simp
  from last n have "take i ps ! j \<notin> set (drop (Suc j) (take i ps))" by simp
  from read_pins_value [OF ok l this] n show ?thesis by simp
qed

lemma started_twice:
  "snd (start hw_once cfg_twice) =
     \<lparr>pins = [27, 17, 27], label_map = Map.empty, interval_s = 1, on_update = quiet,
      thread = Some 0, stop_event = False, last_values = Map.empty,
      threads = [True], calls = 4, trace = [Setmode, Setup 27, Setup 17, Setup 27, Spawn 0]\<rparr>"
  by (simp add: start_def hw_call_def init_def thread_alive_def hw_once_def hw_fail_once_def
      cfg_twice_def)

lemma fields_twice:
  "pins (snd (start hw_once cfg_twice)) = [27, 17, 27]"
  "calls (snd (start hw_once cfg_twice)) = 4"
  "trace (snd (start hw_once cfg_twice)) = [Setmode, Setup 27, Setup 17, Setup 27, Spawn 0]"
  "is_alive (snd (start hw_once cfg_twice)) 0"
  "\<not> stop_event (snd (start hw_once cfg_twice))"
  by (simp_all add: started_twice is_alive_def)

lemma cache_twice:
  "cache_after hw_once (snd (start hw_once cfg_twice)) 2 = [27 \<mapsto> 1, 17 \<mapsto> 1]"
  by (simp add: cache_after_def started_twice numeral_2_eq_2)
     (simp add: hw_once_def hw_fail_once_def hw_call_def)

lemma started_three:
  "snd (start hw27 cfg_three) =
     \<lparr>pins = [17, 27, 22], label_map = Map.empty, interval_s = 1, on_update = quiet,
      thread = Some 0, stop_event = False, last_values = Map.empty,
      threads = [True], calls = 4, trace = [Setmode, Setup 17, Setup 27, Setup 22, Spawn 0]\<rparr>"
  by (simp add: start_def hw_call_def init_def thread_alive_def hw27_def hw_fail27_def cfg_three_def)

lemma run_three:
  "loop_step hw27 0 (snd (start hw27 cfg_three)) =
     \<lparr>pins = [17, 27, 22], label_map = Map.empty, interval_s = 1, on_update = quiet,
      thread = Some 0, stop_event = False, last_values = [17 \<mapsto> 1],
      threads = [False], calls = 6,
      trace = [Setmode, Setup 17, Setup 27, Setup 22, Spawn 0, Input 17, Input 27,
               Uncaught RuntimeError]\<rparr>"
  by (simp add: started_three)
     (simp add: loop_step_def is_alive_def hw27_def hw_fail27_def hw_call_def die_def)

section \<open>A failing read\<close>

text \<open>
  C2, as the code has it. When a read raises during a pass, the exception is not caught:
  the loop thread is dead after the pass, no snapshot is handed to the callback for it,
  and \<^verbatim>\<open>_loop\<close> has ended. The pass stops at the first read that raises: the
  reads before it and this one are the only ones made, the uncaught exception is the
  last thing that happens, the cache is what the stores before the failing read made of
  it, so every pin not read before the failing read keeps the value it had, and a pin
  read before it holds the value of its last such read (also when it is the failing pin,
  listed twice). A read raises in a pass exactly when some read of the pass raises after
  the reads before it returned.
\<close>

theorem read_failure_ends_loop:
  "(is_alive w t \<and> \<not> stop_event w \<and> fst (read_pins G (pins w) w) = Some e \<longrightarrow>
      \<not> is_alive (loop_step G t w) t \<and>
      updates (trace (loop_step G t w)) = updates (trace w) \<and>
      loop G t (Suc n) w = Some (loop_step G t w) \<and>
      (\<exists>g i. G = Some g \<and> i < length (pins w) \<and>
         gpio_input g (calls w + i) (pins w ! i) = Inl e \<and>
         fst (read_pins G (take i (pins w)) w) = None \<and>
         trace (loop_step G t w) = trace w @ map Input (take (Suc i) (pins w)) @ [Uncaught e] \<and>
         last_values (loop_step G t w) = cache_after G w i \<and>
         (\<forall>q. q \<notin> set (take i (pins w)) \<longrightarrow> last_values (loop_step G t w) q = last_values w q) \<and>
         (\<forall>j < i. pins w ! j \<notin> set (drop (Suc j) (take i (pins w))) \<longrightarrow>
            (\<exists>v. gpio_input g (calls w + j) (pins w ! j) = Inr v \<and>
                 last_values (loop_step G t w) (pins w ! j) = Some (py_int v))))) \<and>
   (k < length (pins w) \<and> gpio_input h (calls w + k) (pins w ! k) = Inl e \<and>
    (\<forall>j < k. \<exists>v. gpio_input h (calls w + j) (pins w ! j) = Inr v) \<longrightarrow>
      fst (read_pins (Some h) (pins w) w) = Some e)"
proof (intro conjI impI)
  assume a: "is_alive w t \<and> \<not> stop_event w \<and> fst (read_pins G (pins w) w) = Some e"
  let ?r = "snd (read_pins G (pins w) w)"
  from a have ls: "loop_step G t w = die t e ?r"
    by (simp add: loop_step_raises)
  show dead: "\<not> is_alive (loop_step G t w) t"
    by (simp add: ls die_dead)
  show "updates (trace (loop_step G t w)) = updates (trace w)"
    by (simp add: ls die_fields updates_append read_pins_updates)
  from dead show "loop G t (Suc n) w = Some (loop_step G t w)"
    by (simp add: Let_def)
  from a have "fst (read_pins G (pins w) w) = Some e" by simp
  from read_pins_fail_index [OF this] obtain g i where gi:
    "G = Some g" "i < length (pins w)" "gpio_input g (calls w + i) (pins w ! i) = Inl e"
    "fst (read_pins G (take i (pins w)) w) = None"
    "?r = hw_call (Input (pins w ! i)) (snd (read_pins G (take i (pins w)) w))"
    by blast
  let ?ri = "snd (read_pins G (take i (pins w)) w)"
  have tri: "trace ?ri = trace w @ map Input (take i (pins w))"
    using read_pins_trace_ok [OF gi(4)] gi(1) by simp
  have tr: "trace (loop_step G t w) = trace w @ map Input (take (Suc i) (pins w)) @ [Uncaught e]"
    using gi(2) by (simp add: ls die_fields gi(5) hw_call_def tri take_Suc_conv_app_nth)
  have lv: "last_values (loop_step G t w) = cache_after G w i"
    by (simp add: ls die_fields gi(5) hw_call_def cache_after_def)
  have other: "\<forall>q. q \<notin> set (take i (pins w)) \<longrightarrow> last_values (loop_step G t w) q = last_values w q"
    by (simp add: lv cache_after_def read_pins_other)
  have vals: "\<forall>j < i. pins w ! j \<notin> set (drop (Suc j) (take i (pins w))) \<longrightarrow>
            (\<exists>v. gpio_input g (calls w + j) (pins w ! j) = Inr v \<and>
                 last_values (loop_step G t w) (pins w ! j) = Some (py_int v))"
  proof (intro allI impI)
    fix j assume j: "j < i" and l: "pins w ! j \<notin> set (drop (Suc j) (take i (pins w)))"
    from gi(4) gi(1) have ok: "fst (read_pins (Some g) (take i (pins w)) w) = None" by simp
    from gi(2) have "i \<le> length (pins w)" by simp
    have "last_values (loop_step G t w) = last_values (snd (read_pins G (take i (pins w)) w))"
      by (simp add: lv cache_after_def)
    with cache_after_value [OF ok j \<open>i \<le> length (pins w)\<close> l] gi(1)
    show "\<exists>v. gpio_input g (calls w + j) (pins w ! j) = Inr v \<and>
                 last_values (loop_step G t w) (pins w ! j) = Some (py_int v)"
      by simp
  qed
  from gi(1-4) tr lv other vals
  show "\<exists>g i. G = Some g \<and> i < length (pins w) \<and>
         gpio_input g (calls w + i) (pins w ! i) = Inl e \<and>
         fst (read_pins G (take i (pins w)) w) = None \<and>
         trace (loop_step G t w) = trace w @ map Input (take (Suc i) (pins w)) @ [Uncaught e] \<and>
         last_values (loop_step G t w) = cache_after G w i \<and>
         (\<forall>q. q \<notin> set (take i (pins w)) \<longrightarrow> last_values (loop_step G t w) q = last_values w q) \<and>
         (\<forall>j < i. pins w ! j \<notin> set (drop (Suc j) (take i (pins w))) \<longrightarrow>
            (\<exists>v. gpio_input g (calls w + j) (pins w ! j) = Inr v \<and>
                 last_values (loop_step G t w) (pins w ! j) = Some (py_int v)))"
    by blast
next
  assume "k < length (pins w) \<and> gpio_input h (calls w + k) (pins w ! k) = Inl e \<and>
    (\<forall>j < k. \<exists>v. gpio_input h (calls w + j) (pins w ! j) = Inr v)"
  then show "fst (read_pins (Some h) (pins w) w) = Some e"
    using read_pins_fails_at [of k "pins w" h w e] by blast
qed

theorem read_failure_ends_loop_witness:
  "fst (read_pins (Some hw_fail_once) (pins (snd (start hw_once cfg_twice)))
         (snd (start hw_once cfg_twice))) = Some RuntimeError \<and>
   \<not> is_alive (loop_step hw_once 0 (snd (start hw_once cfg_twice))) 0 \<and>
   updates (trace (loop_step hw_once 0 (snd (start hw_once cfg_twice)))) = [] \<and>
   loop hw_once 0 (Suc 0) (snd (start hw_once cfg_twice)) =
     Some (loop_step hw_once 0 (snd (start hw_once cfg_twice))) \<and>
   trace (loop_step hw_once 0 (snd (start hw_once cfg_twice))) =
     [Setmode, Setup 27, Setup 17, Setup 27, Spawn 0, Input 27, Input 17, Input 27,
      Uncaught RuntimeError] \<and>
   last_values (loop_step hw_once 0 (snd (start hw_once cfg_twice))) 27 = Some 1"
proof -
  let ?W = "snd (start hw_once cfg_twice)"
  note T = read_failure_ends_loop
    [where G = hw_once and w = ?W and t = 0 and e = RuntimeError and n = 0
       and h = hw_fail_once and k = 2]
  have h2: "2 < length (pins ?W) \<and>
      gpio_input hw_fail_once (calls ?W + 2) (pins ?W ! 2) = Inl RuntimeError \<and>
      (\<forall>j < 2. \<exists>v. gpio_input hw_fail_once (calls ?W + j) (pins ?W ! j) = Inr v)"
    by (simp add: fields_twice hw_fail_once_def)
  have f: "fst (read_pins (Some hw_fail_once) (pins ?W) ?W) = Some RuntimeError"
    by (rule T [THEN conjunct2, THEN mp, OF h2])
  then have f': "fst (read_pins hw_once (pins ?W) ?W) = Some RuntimeError"
    by (simp only: hw_once_def)
  have h1: "is_alive ?W 0 \<and> \<not> stop_event ?W \<and>
      fst (read_pins hw_once (pins ?W) ?W) = Some RuntimeError"
    by (intro conjI) (rule fields_twice(4,5) f')+
  note A = T [THEN conjunct1, THEN mp, OF h1]
  have c1: "\<not> is_alive (loop_step hw_once 0 ?W) 0"
    by (rule A [THEN conjunct1])
  have c2: "updates (trace (loop_step hw_once 0 ?W)) = []"
    using A [THEN conjunct2, THEN conjunct1] by (simp add: fields_twice)
  have c3: "loop hw_once 0 (Suc 0) ?W = Some (loop_step hw_once 0 ?W)"
    by (rule A [THEN conjunct2, THEN conjunct2, THEN conjunct1])
  from A [THEN conjunct2, THEN conjunct2, THEN conjunct2] obtain g i where gi:
    "hw_once = Some g" "i < length (pins ?W)"
    "gpio_input g (calls ?W + i) (pins ?W ! i) = Inl RuntimeError"
    "trace (loop_step hw_once 0 ?W) =
       trace ?W @ map Input (take (Suc i) (pins ?W)) @ [Uncaught RuntimeError]"
    "last_values (loop_step hw_once 0 ?W) = cache_after hw_once ?W i"
    by blast
  from gi(1) have g: "g = hw_fail_once" by (simp add: hw_once_def)
  from gi(3) have "i = 2"
    by (simp add: g fields_twice hw_fail_once_def split: if_splits)
  with gi(4,5) have c4: "trace (loop_step hw_once 0 ?W) =
     [Setmode, Setup 27, Setup 17, Setup 27, Spawn 0, Input 27, Input 17, Input 27,
      Uncaught RuntimeError]"
    and c5: "last_values (loop_step hw_once 0 ?W) 27 = Some 1"
    by (simp_all add: fields_twice cache_twice numeral_3_eq_3)
  show ?thesis
    by (intro conjI) (rule f c1 c2 c3 c4 c5)+
qed

text \<open>
  C2 as stated fails: with pins 17, 27 and 22 and a pin 27 whose read raises, the first
  pass ends the thread with the exception uncaught, no snapshot is ever emitted (not for
  pins 17 and 22 either), pin 27 has no cached value, and \<^verbatim>\<open>_loop\<close> has returned
  after that one pass.
\<close>

theorem read_failure_absorbed_counterexample:
  "gpio_input hw_fail27 5 27 = Inl RuntimeError \<and>
   updates (trace (exec hw27 [Start, LoopStep 0, LoopStep 0] cfg_three)) = [] \<and>
   threads (exec hw27 [Start, LoopStep 0, LoopStep 0] cfg_three) = [False] \<and>
   trace (exec hw27 [Start, LoopStep 0, LoopStep 0] cfg_three) =
     [Setmode, Setup 17, Setup 27, Setup 22, Spawn 0, Input 17, Input 27, Uncaught RuntimeError] \<and>
   last_values (exec hw27 [Start, LoopStep 0, LoopStep 0] cfg_three) 27 = None \<and>
   loop hw27 0 1 (snd (start hw27 cfg_three)) = Some (exec hw27 [Start, LoopStep 0] cfg_three)"
proof -
  have d: "loop_step hw27 0 (loop_step hw27 0 (snd (start hw27 cfg_three))) =
           loop_step hw27 0 (snd (start hw27 cfg_three))"
    by (simp add: run_three) (simp add: loop_step_def is_alive_def)
  have l: "loop hw27 0 1 (snd (start hw27 cfg_three)) = Some (loop_step hw27 0 (snd (start hw27 cfg_three)))"
    unfolding One_nat_def by (simp add: run_three) (simp add: Let_def is_alive_def)
  show ?thesis
    by (simp add: d l) (simp add: run_three hw_fail27_def Let_def is_alive_def)
qed

end
